theory Spec2Isabelle
  imports Main "HOL-Library.Sublist"
begin

section \<open>The host interface of \<open>matched_columns_imp\<close>\<close>

text \<open>
  \<open>matched_columns.c\<close> registers one FTS5 auxiliary function, \<open>matched_columns_imp\<close>.
  It talks to three things outside itself: the FTS5 match context (column count, phrase
  count, one column iterator per phrase), the SQLite allocator, and the result context
  that receives either a text or an error. Each of them is an explicit argument or result
  of the model.
\<close>

text \<open>
  The match context. \<open>columnCount\<close> is what \<open>xColumnCount\<close> returns; \<open>phrases\<close> has
  one entry per phrase (so \<open>xPhraseCount\<close> is its length), and the entry of phrase \<open>i\<close>
  is the sequence of values that \<open>xPhraseFirstColumn\<close> and then \<open>xPhraseNextColumn\<close>
  store into \<open>columnIndex\<close>. After the last value of the sequence the iterator stores
  \<open>-1\<close>; a negative value inside the sequence ends the loop in the same way.
\<close>

record Fts5Context =
  columnCount :: nat
  phrases :: "int list list"

text \<open>
  The platform and the allocator. \<open>sizeof_ptr\<close> is \<open>sizeof(char * )\<close>, which is also the
  width of \<open>size_t\<close> in bytes. \<open>sqlite3_malloc\<close> does not initialise the block it returns:
  \<open>heap_matchedColumns\<close> and \<open>heap_columnSet\<close> say what the two calls of
  \<open>matched_columns_imp\<close> find, \<open>None\<close> when the allocation fails and otherwise the content
  that the memory happens to have at each offset from the returned pointer. For
  \<open>heap_columnSet\<close> the offsets at and past the size of the block matter as well: they are
  the bytes that follow the block, which \<open>columnSet[columnIndex]\<close> reaches when
  \<open>columnIndex\<close> is not a valid column.
\<close>

record Environment =
  sizeof_ptr :: nat
  heap_matchedColumns :: "(nat \<Rightarrow> char) option"
  heap_columnSet :: "(nat \<Rightarrow> bool) option"

text \<open>
  What the call leaves behind. \<open>Returned v\<close>: the value \<open>v\<close> was handed to the result
  context and no access left a block. \<open>Crashed\<close>: the call stopped where a null pointer is
  dereferenced, or where \<open>strlen\<close> or \<open>strncat\<close> runs past the end of the
  \<open>matchedColumns\<close> block. \<open>Overran ws v\<close>: the code has no range check on
  \<open>columnIndex\<close>, so an access \<open>columnSet[columnIndex]\<close> outside the block reads the byte
  that lies there and, when it is zero, sets it; \<open>ws\<close> lists the offsets that were
  written outside the block, in order, and \<open>v\<close> is the value the call then handed to the
  result context.
\<close>

datatype fault = NullDereference | BufferOverrun

datatype sink = ResultError string | ResultText string | ResultNull

datatype outcome = Crashed fault | Returned sink | Overran "nat list" sink

text \<open>
  The variables of the function. \<open>columnSet\<close> is the block itself, \<open>beyond\<close> the memory
  at the offsets past it. \<open>strayWrites\<close> and \<open>iterations\<close> are not variables of the code:
  they record the offsets written outside the \<open>columnSet\<close> block and how often the body of
  the inner loop has run.
\<close>

record LoopState =
  matchedColumns :: "string option"
  columnSet :: "bool list option"
  beyond :: "nat \<Rightarrow> bool"
  strayWrites :: "nat list"
  iterations :: nat

section \<open>Library functions used by the code\<close>

definition NUL :: char where
  "NUL = CHR 0x00"

text \<open>
  \<open>sqlite3_malloc(int n)\<close> returns a null pointer when \<open>n\<close> is zero or negative or when
  no memory is available, and otherwise a block of \<open>n\<close> bytes with arbitrary content.
\<close>

definition sqlite3_malloc :: "(nat \<Rightarrow> 'a) option \<Rightarrow> int \<Rightarrow> 'a list option" where
  "sqlite3_malloc supply n =
     (if n \<le> 0 then None
      else (case supply of None \<Rightarrow> None | Some content \<Rightarrow> Some (map content [0..<nat n])))"

text \<open>
  The argument of \<open>sqlite3_malloc\<close> is an \<open>int\<close>; the code passes a \<open>size_t\<close> product, which
  is reduced to 32 bits and read as a signed number.
\<close>

definition int_of_size_t :: "nat \<Rightarrow> int" where
  "int_of_size_t n =
     (let m = int n mod 2 ^ 32 in if m < 2 ^ 31 then m else m - 2 ^ 32)"

text \<open>Subtraction of \<open>size_t\<close> values wraps around modulo \<open>2 ^ (8 * sizeof(size_t))\<close>.\<close>

definition size_t_sub :: "nat \<Rightarrow> nat \<Rightarrow> nat \<Rightarrow> nat" where
  "size_t_sub P a b = nat ((int a - int b) mod 2 ^ (8 * P))"

text \<open>
  \<open>strlen\<close> on a block: the offset of the first NUL, or nothing when the block holds no
  NUL and the scan leaves it.
\<close>

fun strlen :: "string \<Rightarrow> nat option" where
  "strlen [] = None"
| "strlen (c # cs) =
     (if c = NUL then Some 0
      else (case strlen cs of None \<Rightarrow> None | Some n \<Rightarrow> Some (Suc n)))"

text \<open>
  \<open>strncat(dest, src, n)\<close> writes at most \<open>n\<close> characters of \<open>src\<close> and then a NUL, starting
  at the terminator of \<open>dest\<close>. \<open>src\<close> is given by its characters, without its terminator.
\<close>

definition strncat :: "string \<Rightarrow> string \<Rightarrow> nat \<Rightarrow> string option" where
  "strncat dest src n =
     (case strlen dest of
        None \<Rightarrow> None
      | Some len \<Rightarrow>
          (let written = take n src @ [NUL] in
           if len + length written \<le> length dest
           then Some (take len dest @ written @ drop (len + length written) dest)
           else None))"

definition digit :: "nat \<Rightarrow> char" where
  "digit d = ''0123456789'' ! d"

fun decimal_nat :: "nat \<Rightarrow> string" where
  "decimal_nat n =
     (if n < 10 then [digit n] else decimal_nat (n div 10) @ [digit (n mod 10)])"

declare decimal_nat.simps [simp del]

text \<open>The conversion \<open>%d\<close>.\<close>

definition decimal :: "int \<Rightarrow> string" where
  "decimal v = (if v < 0 then CHR ''-'' # decimal_nat (nat (- v)) else decimal_nat (nat v))"

text \<open>\<open>sqlite3_mprintf\<close> with one \<open>int\<close> argument: the first \<open>%d\<close> is replaced by it.\<close>

fun sqlite3_mprintf :: "string \<Rightarrow> int \<Rightarrow> string" where
  "sqlite3_mprintf (c # d # rest) v =
     (if c = CHR ''%'' \<and> d = CHR ''d'' then decimal v @ rest
      else c # sqlite3_mprintf (d # rest) v)"
| "sqlite3_mprintf fmt v = fmt"

text \<open>
  \<open>sqlite3_result_text(ctx, z, -1, SQLITE_TRANSIENT)\<close>: a null \<open>z\<close> sets the result to SQL
  NULL; otherwise the text up to the first NUL is copied.
\<close>

definition sqlite3_result_text :: "string option \<Rightarrow> outcome" where
  "sqlite3_result_text z =
     (case z of
        None \<Rightarrow> Returned ResultNull
      | Some buf \<Rightarrow>
          (case strlen buf of
             None \<Rightarrow> Crashed BufferOverrun
           | Some len \<Rightarrow> Returned (ResultText (take len buf))))"

section \<open>\<open>matched_columns_imp\<close>\<close>

text \<open>
  The read \<open>columnSet[columnIndex]\<close> and the write \<open>columnSet[columnIndex] = true\<close>.
  Neither is guarded by a range check: inside the block they act on the block, outside
  they act on the memory that follows it.
\<close>

definition is_marked :: "LoopState \<Rightarrow> bool list \<Rightarrow> nat \<Rightarrow> bool" where
  "is_marked s cs i = (if i < length cs then cs ! i else beyond s i)"

definition mark_column :: "LoopState \<Rightarrow> bool list \<Rightarrow> nat \<Rightarrow> LoopState" where
  "mark_column s cs i =
     (if i < length cs then s\<lparr>columnSet := Some (cs[i := True])\<rparr>
      else s\<lparr>beyond := (beyond s)(i := True), strayWrites := strayWrites s @ [i]\<rparr>)"

text \<open>
  The append step of lines 74 to 77. The two calls of \<open>strlen\<close> on the unchanged buffer
  give the same length \<open>len\<close>; the bound passed to \<open>strncat\<close> is
  \<open>sizeof(matchedColumns) - strlen(matchedColumns) - 1\<close>, computed in \<open>size_t\<close>, where
  \<open>matchedColumns\<close> is a pointer. \<open>sqlite3_mprintf\<close> is taken to succeed.
\<close>

definition append_column :: "nat \<Rightarrow> int \<Rightarrow> LoopState \<Rightarrow> fault option \<times> LoopState" where
  "append_column P columnIndex s1 =
     (case matchedColumns s1 of
        None \<Rightarrow> (Some NullDereference, s1)
      | Some buf \<Rightarrow>
          (case strlen buf of
             None \<Rightarrow> (Some BufferOverrun, s1)
           | Some len \<Rightarrow>
               (let formatString = (if 0 < len then '',%d'' else ''%d'');
                    formattedColumnIndex = sqlite3_mprintf formatString columnIndex
                in case strncat buf formattedColumnIndex
                          (size_t_sub P (size_t_sub P P len) 1) of
                     None \<Rightarrow> (Some BufferOverrun, s1)
                   | Some buf' \<Rightarrow> (None, s1\<lparr>matchedColumns := Some buf'\<rparr>))))"

text \<open>The body of the inner loop, for one value \<open>columnIndex \<ge> 0\<close> of the iterator.\<close>

definition loop_body :: "nat \<Rightarrow> int \<Rightarrow> LoopState \<Rightarrow> fault option \<times> LoopState" where
  "loop_body P columnIndex s0 =
     (let s = s0\<lparr>iterations := Suc (iterations s0)\<rparr> in
      case columnSet s of
        None \<Rightarrow> (Some NullDereference, s)
      | Some cs \<Rightarrow>
          if is_marked s cs (nat columnIndex) then (None, s)
          else append_column P columnIndex (mark_column s cs (nat columnIndex)))"

text \<open>
  The inner loop over the values of one phrase's iterator: it runs while
  \<open>columnIndex >= 0\<close>. The iterator of FTS5 walks the finite position list of the
  phrase, so its values form a finite sequence; past its end the iterator stores \<open>-1\<close>.
\<close>

fun column_loop :: "nat \<Rightarrow> int list \<Rightarrow> LoopState \<Rightarrow> fault option \<times> LoopState" where
  "column_loop P [] s = (None, s)"
| "column_loop P (columnIndex # rest) s =
     (if 0 \<le> columnIndex
      then (case loop_body P columnIndex s of
              (Some f, s') \<Rightarrow> (Some f, s')
            | (None, s') \<Rightarrow> column_loop P rest s')
      else (None, s))"

text \<open>The outer loop over the phrases, in ascending phrase index.\<close>

fun phrase_loop :: "nat \<Rightarrow> int list list \<Rightarrow> LoopState \<Rightarrow> fault option \<times> LoopState" where
  "phrase_loop P [] s = (None, s)"
| "phrase_loop P (phrase # rest) s =
     (case column_loop P phrase s of
        (Some f, s') \<Rightarrow> (Some f, s')
      | (None, s') \<Rightarrow> phrase_loop P rest s')"

text \<open>
  What the result context holds at the end, together with the record of the writes
  outside the \<open>columnSet\<close> block.
\<close>

definition report :: "nat list \<Rightarrow> outcome \<Rightarrow> outcome" where
  "report ws r =
     (case r of
        Returned v \<Rightarrow> (if ws = [] then Returned v else Overran ws v)
      | other \<Rightarrow> other)"

text \<open>
  The whole function. The second component of the result counts the executions of the
  inner loop's body, that is the column indices taken from the iterators.
\<close>

definition matched_columns_imp :: "Environment \<Rightarrow> Fts5Context \<Rightarrow> int \<Rightarrow> outcome \<times> nat" where
  "matched_columns_imp env ctx nVal =
     (if nVal \<noteq> 0 then (Returned (ResultError ''Wrong number of arguments.''), 0)
      else
        (let numberOfColumns = columnCount ctx;
             s0 = \<lparr>matchedColumns =
                     sqlite3_malloc (heap_matchedColumns env) (int_of_size_t (numberOfColumns * 3)),
                   columnSet =
                     sqlite3_malloc (heap_columnSet env) (int_of_size_t numberOfColumns),
                   beyond = (case heap_columnSet env of None \<Rightarrow> (\<lambda>_. False)
                             | Some content \<Rightarrow> content),
                   strayWrites = [],
                   iterations = 0\<rparr>
         in case phrase_loop (sizeof_ptr env) (phrases ctx) s0 of
              (Some f, s) \<Rightarrow> (Crashed f, iterations s)
            | (None, s) \<Rightarrow>
                (report (strayWrites s) (sqlite3_result_text (matchedColumns s)),
                 iterations s)))"

section \<open>The list the function is meant to return\<close>

text \<open>
  The following definitions are not taken from the code. They state, in the words of the
  specification, which text the aggregation is expected to produce, so that the code can
  be compared with it.
\<close>

text \<open>The columns one phrase yields: the iterator's values up to its end signal.\<close>

definition phrase_columns :: "int list \<Rightarrow> int list" where
  "phrase_columns phrase = takeWhile (\<lambda>c. 0 \<le> c) phrase"

text \<open>The traversal: phrases in ascending index, each in its iterator's order.\<close>

definition yielded :: "int list list \<Rightarrow> int list" where
  "yielded ps = concat (map phrase_columns ps)"

definition note_column :: "int list \<Rightarrow> int \<Rightarrow> int list" where
  "note_column acc c = (if c \<in> set acc then acc else acc @ [c])"

text \<open>First-seen order: every column once, at the place of its first occurrence.\<close>

definition spec_first_seen :: "int list \<Rightarrow> int list" where
  "spec_first_seen cs = foldl note_column [] cs"

fun join_commas :: "string list \<Rightarrow> string" where
  "join_commas [] = []"
| "join_commas [s] = s"
| "join_commas (s # t # rest) = s @ '','' @ join_commas (t # rest)"

definition spec_output :: "Fts5Context \<Rightarrow> string" where
  "spec_output ctx = join_commas (map decimal (spec_first_seen (yielded (phrases ctx))))"

text \<open>The column indices written in a text: its comma-separated fields.\<close>

fun fields :: "string \<Rightarrow> string list" where
  "fields [] = [[]]"
| "fields (c # cs) =
     (if c = CHR '','' then [] # fields cs
      else (case fields cs of [] \<Rightarrow> [[c]] | f # fs \<Rightarrow> (c # f) # fs))"

section \<open>Loop invariants and a reference environment\<close>

text \<open>
  The invariant of the two loops when both fresh blocks happen to be zeroed and every
  iterator value is a valid column: \<open>acc\<close> is the list of columns marked so far, in the
  order in which they were marked, \<open>columnSet\<close> is its characteristic array, and the
  string in \<open>matchedColumns\<close> is the joined list cut after \<open>sizeof_ptr - 1\<close> characters.
\<close>

definition tracking :: "nat \<Rightarrow> nat \<Rightarrow> int list \<Rightarrow> LoopState \<Rightarrow> bool" where
  "tracking P n acc s \<longleftrightarrow>
     (\<exists>cs buf len. columnSet s = Some cs \<and> length cs = n \<and> (\<forall>i<n. cs ! i \<longleftrightarrow> int i \<in> set acc)
        \<and> distinct acc \<and> (\<forall>c\<in>set acc. 0 \<le> c \<and> c < int n) \<and> strayWrites s = []
        \<and> matchedColumns s = Some buf \<and> length buf = 3 * n \<and> strlen buf = Some len
        \<and> take len buf = take (P - 1) (join_commas (map decimal acc)))"




text \<open>
  A 64-bit platform on which both allocations succeed and return zeroed memory, used for
  the concrete runs below.
\<close>

definition zeroed_env :: Environment where
  "zeroed_env = \<lparr>sizeof_ptr = 8, heap_matchedColumns = Some (\<lambda>_. NUL),
                  heap_columnSet = Some (\<lambda>_. False)\<rparr>"

section \<open>Facts about the library functions\<close>

text \<open>
  \<open>strlen\<close> finds the first NUL of a block; \<open>strncat\<close> succeeds exactly when the
  characters it writes and their terminator fit into the block, and then the new string is
  the old one followed by the first \<open>n\<close> characters of the source.
\<close>

lemma strlen_SomeD:
  "strlen buf = Some len \<Longrightarrow> len < length buf \<and> buf ! len = NUL \<and> NUL \<notin> set (take len buf)"
proof (induction buf arbitrary: len)
  case Nil
  then show ?case by simp
next
  case (Cons c cs)
  show ?case
  proof (cases "c = NUL")
    case True
    then show ?thesis using Cons.prems by simp
  next
    case False
    then obtain m where m: "strlen cs = Some m" "len = Suc m"
      using Cons.prems by (auto split: option.splits)
    from Cons.IH[OF m(1)] show ?thesis using False m(2) by simp
  qed
qed

lemma strlen_append_NUL:
  "NUL \<notin> set xs \<Longrightarrow> strlen (xs @ NUL # ys) = Some (length xs)"
  by (induction xs) auto

lemma strlen_take_id:
  assumes "strlen buf = Some len"
  shows "NUL \<notin> set (take len buf)" and "len < length buf"
  using strlen_SomeD[OF assms] by simp_all

lemma strncat_result:
  assumes len: "strlen dest = Some len"
    and fit: "len + min (length src) n < length dest"
    and src: "NUL \<notin> set src"
  shows "\<exists>dest'. strncat dest src n = Some dest' \<and> length dest' = length dest
           \<and> strlen dest' = Some (len + min (length src) n)
           \<and> take (len + min (length src) n) dest' = take len dest @ take n src"
proof -
  let ?w = "take n src @ [NUL]"
  let ?d = "take len dest @ ?w @ drop (len + length ?w) dest"
  have lw: "length ?w = Suc (min (length src) n)" by simp
  have eq: "strncat dest src n = Some ?d"
    using len fit unfolding strncat_def Let_def by (simp del: append_assoc)
  have nonul: "NUL \<notin> set (take len dest @ take n src)"
    using strlen_take_id(1)[OF len] src by (auto dest: in_set_takeD)
  have shape: "?d = (take len dest @ take n src) @ NUL # drop (len + length ?w) dest"
    by simp
  have l0: "length (take len dest @ take n src) = len + min (length src) n"
    using fit by simp
  have "strlen ?d = Some (length (take len dest @ take n src))"
    unfolding shape using nonul by (rule strlen_append_NUL)
  then have sl: "strlen ?d = Some (len + min (length src) n)"
    using l0 by simp
  have tk: "take (len + min (length src) n) ?d = take len dest @ take n src"
    unfolding shape using l0 by (metis append_eq_conv_conj)
  have ln: "length ?d = length dest"
    using fit by simp
  show ?thesis
  proof (intro exI conjI)
    show "strncat dest src n = Some ?d" by (rule eq)
    show "length ?d = length dest" by (rule ln)
    show "strlen ?d = Some (len + min (length src) n)" by (rule sl)
    show "take (len + min (length src) n) ?d = take len dest @ take n src" by (rule tk)
  qed
qed

lemma digit_not_NUL: "d < 10 \<Longrightarrow> digit d \<noteq> NUL"
proof -
  assume "d < 10"
  then have "d \<in> {0, 1, 2, 3, 4, 5, 6, 7, 8, 9}" by auto
  then show ?thesis unfolding digit_def NUL_def by auto
qed

lemma decimal_nat_no_NUL: "NUL \<notin> set (decimal_nat n)"
proof (induction n rule: decimal_nat.induct)
  case (1 n)
  show ?case
  proof (cases "n < 10")
    case True
    then show ?thesis using digit_not_NUL[of n] by (subst decimal_nat.simps) auto
  next
    case False
    have "n mod 10 < 10" by simp
    then have "digit (n mod 10) \<noteq> NUL" by (rule digit_not_NUL)
    then show ?thesis using False 1 by (subst decimal_nat.simps) auto
  qed
qed

lemma decimal_nat_nonempty: "decimal_nat n \<noteq> []"
  by (subst decimal_nat.simps) simp

lemma decimal_nat_small: "n < 10 \<Longrightarrow> length (decimal_nat n) = 1"
  by (subst decimal_nat.simps) simp

lemma decimal_no_NUL: "0 \<le> v \<Longrightarrow> NUL \<notin> set (decimal v)"
  by (simp add: decimal_def decimal_nat_no_NUL)

lemma decimal_nonempty: "decimal v \<noteq> []"
  by (simp add: decimal_def decimal_nat_nonempty)

lemma mprintf_plain: "sqlite3_mprintf ''%d'' v = decimal v"
  by simp

lemma mprintf_comma: "sqlite3_mprintf '',%d'' v = CHR '','' # decimal v"
  by simp

lemma comma_not_NUL: "CHR '','' \<noteq> NUL"
  by (simp add: NUL_def)

lemma size_t_bound:
  assumes "len \<le> P - 1"
  shows "size_t_sub P (size_t_sub P P len) 1 = P - 1 - len"
proof (cases "P = 0")
  case True
  then show ?thesis by (simp add: size_t_sub_def)
next
  case False
  have "P < 2 ^ P" by (rule less_exp)
  also have "\<dots> \<le> 2 ^ (8 * P)" by (rule power_increasing) simp_all
  finally have big: "int P < 2 ^ (8 * P)"
    by (metis of_nat_less_iff of_nat_numeral of_nat_power)
  have "int len \<le> int P" using assms by simp
  then have a: "0 \<le> int P - int len" "int P - int len < 2 ^ (8 * P)"
    using big by linarith+
  have "(int P - int len) mod 2 ^ (8 * P) = int P - int len"
    using a by (rule mod_pos_pos_trivial)
  then have first: "size_t_sub P P len = P - len"
    unfolding size_t_sub_def by simp
  have "1 \<le> int (P - len)" "int (P - len) \<le> int P" using assms False by auto
  then have b: "0 \<le> int (P - len) - 1" "int (P - len) - 1 < 2 ^ (8 * P)"
    using big by linarith+
  have "(int (P - len) - int 1) mod 2 ^ (8 * P) = int (P - len) - 1"
    using b by (simp add: mod_pos_pos_trivial)
  then have "size_t_sub P (P - len) 1 = nat (int (P - len) - 1)"
    unfolding size_t_sub_def by simp
  then show ?thesis using first by simp
qed

section \<open>The loops on zeroed memory\<close>

text \<open>
  When both fresh blocks are zeroed and every iterator value is a valid column, no fault
  occurs and the loops keep the invariant \<open>tracking\<close>. The call then returns the first
  \<open>sizeof_ptr - 1\<close> characters of the expected list.
\<close>

lemma int_of_size_t_small: "n < 2 ^ 31 \<Longrightarrow> int_of_size_t n = int n"
proof -
  assume a: "n < 2 ^ 31"
  then have "int n < 2 ^ 31"
    by (metis of_nat_less_iff of_nat_numeral of_nat_power)
  then have "int n mod 2 ^ 32 = int n" by simp
  then show ?thesis using \<open>int n < 2 ^ 31\<close> by (simp add: int_of_size_t_def Let_def)
qed

lemma join_commas_snoc:
  "join_commas (xs @ [s]) = (if xs = [] then s else join_commas xs @ '','' @ s)"
  by (induction xs rule: join_commas.induct) auto

lemma join_decimal_empty: "join_commas (map decimal acc) = [] \<longleftrightarrow> acc = []"
proof (cases acc)
  case Nil
  then show ?thesis by simp
next
  case (Cons a rest)
  then show ?thesis by (cases rest) (simp_all add: decimal_nonempty)
qed

lemma decimal_small: "0 \<le> c \<Longrightarrow> c < 10 \<Longrightarrow> length (decimal c) = 1"
  by (simp add: decimal_def decimal_nat_small)

lemma join_small_length:
  "\<forall>c\<in>set acc. 0 \<le> c \<and> c < 10 \<Longrightarrow> length (join_commas (map decimal acc)) \<le> 2 * length acc"
proof (induction acc rule: induct_list012)
  case 1
  then show ?case by simp
next
  case (2 x)
  then show ?case by (simp add: decimal_small)
next
  case (3 x y zs)
  then show ?case by (simp add: decimal_small)
qed

lemma distinct_bounded_length:
  assumes "distinct acc" "\<forall>c\<in>set acc. 0 \<le> c \<and> c < int n"
  shows "length acc \<le> n"
proof -
  have "set acc \<subseteq> {0..<int n}" using assms(2) by auto
  then have "card (set acc) \<le> card {0..<int n}" by (intro card_mono) simp_all
  then show ?thesis using assms(1) by (simp add: distinct_card)
qed

lemma append_truncated:
  fixes k :: nat and acc :: "int list"
  defines "len \<equiv> length (take k (join_commas (map decimal acc)))"
  shows "take k (join_commas (map decimal acc)) @
           take (k - len) (sqlite3_mprintf (if 0 < len then '',%d'' else ''%d'') c)
         = take k (join_commas (map decimal (acc @ [c])))"
proof (cases "length (join_commas (map decimal acc)) < k")
  case True
  then have len: "len = length (join_commas (map decimal acc))" by (simp add: len_def)
  then have pos: "0 < len \<longleftrightarrow> acc \<noteq> []" using join_decimal_empty[of acc] by auto
  show ?thesis
  proof (cases "acc = []")
    case True
    then show ?thesis using len by simp
  next
    case False
    then have "0 < len" using pos by simp
    then show ?thesis using False True len
      by (simp add: join_commas_snoc del: sqlite3_mprintf.simps add: mprintf_comma)
  qed
next
  case False
  then have len: "len = k" by (simp add: len_def)
  show ?thesis
  proof (cases "acc = []")
    case True
    then show ?thesis using False by simp
  next
    case nonempty: False
    then show ?thesis using False len by (simp add: join_commas_snoc)
  qed
qed

lemma mprintf_no_NUL:
  "0 \<le> c \<Longrightarrow> NUL \<notin> set (sqlite3_mprintf (if 0 < (len::nat) then '',%d'' else ''%d'') c)"
  using decimal_no_NUL[of c] comma_not_NUL by (auto simp del: sqlite3_mprintf.simps simp add: mprintf_comma mprintf_plain)

lemma loop_body_tracking:
  assumes inv: "tracking P n acc s" and c: "0 \<le> c" "c < int n"
    and room: "P \<le> 3 * n \<or> n \<le> 10"
  shows "\<exists>s'. loop_body P c s = (None, s') \<and> tracking P n (note_column acc c) s'
           \<and> iterations s' = Suc (iterations s)"
proof -
  from inv obtain cs buf len where
    cs: "columnSet s = Some cs" "length cs = n" "\<forall>i<n. cs ! i \<longleftrightarrow> int i \<in> set acc"
    and acc: "distinct acc" "\<forall>c\<in>set acc. 0 \<le> c \<and> c < int n"
    and clean: "strayWrites s = []"
    and buf: "matchedColumns s = Some buf" "length buf = 3 * n" "strlen buf = Some len"
    and content: "take len buf = take (P - 1) (join_commas (map decimal acc))"
    unfolding tracking_def by blast
  let ?k = "nat c"
  have k: "?k < n" "int ?k = c" using c by auto
  have seen: "cs ! ?k \<longleftrightarrow> c \<in> set acc" using cs(3) k by auto
  show ?thesis
  proof (cases "cs ! ?k")
    case True
    let ?s' = "s\<lparr>iterations := Suc (iterations s)\<rparr>"
    have run: "loop_body P c s = (None, ?s')"
      using cs k True by (simp add: loop_body_def is_marked_def Let_def)
    have "note_column acc c = acc" using True seen by (simp add: note_column_def)
    moreover have "tracking P n acc ?s'"
      using inv unfolding tracking_def by simp
    ultimately show ?thesis using run by simp
  next
    case False
    then have fresh: "c \<notin> set acc" using seen by simp
    let ?F = "join_commas (map decimal acc)"
    let ?piece = "sqlite3_mprintf (if 0 < len then '',%d'' else ''%d'') c"
    have lenT: "len = length (take (P - 1) ?F)"
      using content strlen_take_id(2)[OF buf(3)] by (metis length_take min.absorb2 less_imp_le)
    then have lenP: "len \<le> P - 1" by simp
    have bound: "size_t_sub P (size_t_sub P P len) 1 = P - 1 - len"
      using lenP by (rule size_t_bound)
    let ?m = "min (length ?piece) (P - 1 - len)"
    have new_txt: "take len buf @ take (P - 1 - len) ?piece
                     = take (P - 1) (join_commas (map decimal (acc @ [c])))"
      using append_truncated[of "P - 1" acc c] content lenT by simp
    have acc': "distinct (acc @ [c])" "\<forall>x\<in>set (acc @ [c]). 0 \<le> x \<and> x < int n"
      using acc fresh c by auto
    have npos: "0 < n" using c by simp
    have fit: "len + ?m < length buf"
    proof -
      from room show ?thesis
      proof
        assume "P \<le> 3 * n"
        moreover have "len + ?m \<le> P - 1" using lenP by simp
        ultimately show ?thesis using npos buf(2) by linarith
      next
        assume small: "n \<le> 10"
        have "len + ?m = length (take len buf @ take (P - 1 - len) ?piece)"
          using strlen_take_id(2)[OF buf(3)] by simp
        also have "\<dots> \<le> length (join_commas (map decimal (acc @ [c])))"
          unfolding new_txt by simp
        also have "\<dots> \<le> 2 * length (acc @ [c])"
          using acc'(2) small by (intro join_small_length) auto
        also have "\<dots> \<le> 2 * n"
          using distinct_bounded_length[OF acc'] by simp
        finally show ?thesis using npos buf(2) by simp
      qed
    qed
    from strncat_result[OF buf(3) fit mprintf_no_NUL[OF c(1)]]
    obtain buf' where buf':
      "strncat buf ?piece (P - 1 - len) = Some buf'" "length buf' = length buf"
      "strlen buf' = Some (len + ?m)"
      "take (len + ?m) buf' = take len buf @ take (P - 1 - len) ?piece"
      by blast
    let ?s' = "s\<lparr>iterations := Suc (iterations s), columnSet := Some (cs[?k := True]),
                  matchedColumns := Some buf'\<rparr>"
    have run: "loop_body P c s = (None, ?s')"
      using cs(1,2) k(1) False buf(1,3) buf'(1) bound
      by (simp add: loop_body_def is_marked_def mark_column_def append_column_def Let_def
          del: sqlite3_mprintf.simps)
    have marks: "\<forall>i<n. (cs[?k := True]) ! i \<longleftrightarrow> int i \<in> set (acc @ [c])"
    proof (intro allI impI)
      fix i assume i: "i < n"
      show "(cs[?k := True]) ! i \<longleftrightarrow> int i \<in> set (acc @ [c])"
      proof (cases "i = ?k")
        case True
        then show ?thesis using k cs(2) by simp
      next
        case False
        then have "int i \<noteq> c" using k(2) by auto
        then show ?thesis using False cs(3) i by simp
      qed
    qed
    have "tracking P n (acc @ [c]) ?s'"
      unfolding tracking_def
      using marks acc' clean cs(2) buf(2) buf'(2,3) buf'(4)[unfolded new_txt] by simp
    moreover have "note_column acc c = acc @ [c]" using fresh by (simp add: note_column_def)
    ultimately show ?thesis using run by simp
  qed
qed

lemma column_loop_tracking:
  assumes "tracking P n acc s" "\<forall>c\<in>set (phrase_columns p). c < int n" "P \<le> 3 * n \<or> n \<le> 10"
  shows "\<exists>s'. column_loop P p s = (None, s')
           \<and> tracking P n (foldl note_column acc (phrase_columns p)) s'
           \<and> iterations s' = iterations s + length (phrase_columns p)"
  using assms
proof (induction p arbitrary: acc s)
  case Nil
  then show ?case by (simp add: phrase_columns_def)
next
  case (Cons c rest)
  show ?case
  proof (cases "0 \<le> c")
    case False
    then show ?thesis using Cons.prems(1) by (simp add: phrase_columns_def)
  next
    case True
    then have cols: "phrase_columns (c # rest) = c # phrase_columns rest"
      by (simp add: phrase_columns_def)
    then have c: "c < int n" and rest: "\<forall>x\<in>set (phrase_columns rest). x < int n"
      using Cons.prems(2) by simp_all
    from loop_body_tracking[OF Cons.prems(1) True c Cons.prems(3)]
    obtain s1 where s1: "loop_body P c s = (None, s1)" "tracking P n (note_column acc c) s1"
      "iterations s1 = Suc (iterations s)" by blast
    from Cons.IH[OF s1(2) rest Cons.prems(3)]
    obtain s' where s': "column_loop P rest s1 = (None, s')"
      "tracking P n (foldl note_column (note_column acc c) (phrase_columns rest)) s'"
      "iterations s' = iterations s1 + length (phrase_columns rest)" by blast
    have "column_loop P (c # rest) s = (None, s')" using True s1(1) s'(1) by simp
    then show ?thesis using s'(2,3) s1(3) cols by simp
  qed
qed

lemma phrase_loop_tracking:
  assumes "tracking P n acc s" "\<forall>c\<in>set (yielded ps). c < int n" "P \<le> 3 * n \<or> n \<le> 10"
  shows "\<exists>s'. phrase_loop P ps s = (None, s')
           \<and> tracking P n (foldl note_column acc (yielded ps)) s'
           \<and> iterations s' = iterations s + length (yielded ps)"
  using assms
proof (induction ps arbitrary: acc s)
  case Nil
  then show ?case by (simp add: yielded_def)
next
  case (Cons p rest)
  have split: "yielded (p # rest) = phrase_columns p @ yielded rest"
    by (simp add: yielded_def)
  then have p: "\<forall>c\<in>set (phrase_columns p). c < int n"
    and rest: "\<forall>c\<in>set (yielded rest). c < int n"
    using Cons.prems(2) by simp_all
  from column_loop_tracking[OF Cons.prems(1) p Cons.prems(3)]
  obtain s1 where s1: "column_loop P p s = (None, s1)"
    "tracking P n (foldl note_column acc (phrase_columns p)) s1"
    "iterations s1 = iterations s + length (phrase_columns p)" by blast
  from Cons.IH[OF s1(2) rest Cons.prems(3)]
  obtain s' where s': "phrase_loop P rest s1 = (None, s')"
    "tracking P n (foldl note_column (foldl note_column acc (phrase_columns p)) (yielded rest)) s'"
    "iterations s' = iterations s1 + length (yielded rest)" by blast
  have "phrase_loop P (p # rest) s = (None, s')" using s1(1) s'(1) by simp
  then show ?case using s'(2,3) s1(3) split by simp
qed

lemma fresh_block_head:
  "0 < n \<Longrightarrow> map g [0..<n] = g 0 # map g [1..<n]"
  by (simp add: upt_conv_Cons)

lemma zeroed_run:
  assumes out: "heap_matchedColumns env = Some g" "g 0 = NUL"
    and seen: "heap_columnSet env = Some b" "\<forall>i<columnCount ctx. \<not> b i"
    and n: "0 < columnCount ctx" "3 * columnCount ctx < 2 ^ 31"
    and room: "sizeof_ptr env \<le> 3 * columnCount ctx \<or> columnCount ctx \<le> 10"
    and range: "\<forall>c\<in>set (yielded (phrases ctx)). c < int (columnCount ctx)"
  shows "matched_columns_imp env ctx 0 =
           (Returned (ResultText (take (sizeof_ptr env - 1) (spec_output ctx))),
            length (yielded (phrases ctx)))"
proof -
  let ?n = "columnCount ctx"
  let ?P = "sizeof_ptr env"
  let ?buf = "map g [0..<3 * ?n]"
  let ?cs = "map b [0..<?n]"
  let ?s0 = "\<lparr>matchedColumns = Some ?buf, columnSet = Some ?cs, beyond = b,
             strayWrites = [], iterations = 0\<rparr>"
  have "?n < 2 ^ 31" using n(2) by simp
  then have sz: "int_of_size_t ?n = int ?n" "int_of_size_t (?n * 3) = int (3 * ?n)"
    using n(2) int_of_size_t_small[of ?n] int_of_size_t_small[of "?n * 3"]
    by (simp_all add: mult.commute)
  have "nat (int (3 * ?n)) = 3 * ?n" by (rule nat_int)
  then have alloc1: "sqlite3_malloc (heap_matchedColumns env) (int_of_size_t (?n * 3)) = Some ?buf"
    using out(1) n(1) unfolding sz(2) sqlite3_malloc_def by simp
  have alloc2: "sqlite3_malloc (heap_columnSet env) (int_of_size_t ?n) = Some ?cs"
    using seen(1) n(1) sz(1) by (simp add: sqlite3_malloc_def)
  have "?buf = NUL # map g [1..<3 * ?n]"
    using fresh_block_head[of "3 * ?n" g] n(1) out(2) by simp
  then have len0: "strlen ?buf = Some 0" by simp
  have start: "tracking ?P ?n [] ?s0"
    unfolding tracking_def using len0 seen(2) by simp
  from phrase_loop_tracking[OF start range room]
  obtain s' where s': "phrase_loop ?P (phrases ctx) ?s0 = (None, s')"
    "tracking ?P ?n (foldl note_column [] (yielded (phrases ctx))) s'"
    "iterations s' = iterations ?s0 + length (yielded (phrases ctx))" by blast
  from s'(2) obtain buf len where fin: "matchedColumns s' = Some buf" "strlen buf = Some len"
    "take len buf = take (?P - 1) (spec_output ctx)" "strayWrites s' = []"
    unfolding tracking_def spec_output_def spec_first_seen_def by blast
  have "report (strayWrites s') (sqlite3_result_text (matchedColumns s')) =
          Returned (ResultText (take (?P - 1) (spec_output ctx)))"
    using fin by (simp add: sqlite3_result_text_def report_def)
  then show ?thesis
    using s'(1,3) alloc1 alloc2 seen(1) by (simp add: matched_columns_imp_def Let_def)
qed

section \<open>The expected list and concrete runs\<close>

lemmas run_simps =
  matched_columns_imp_def sqlite3_malloc_def int_of_size_t_def Let_def loop_body_def
  is_marked_def mark_column_def append_column_def report_def
  strncat_def size_t_sub_def decimal_def decimal_nat.simps digit_def NUL_def
  sqlite3_result_text_def upt_rec

lemmas spec_simps =
  spec_output_def spec_first_seen_def yielded_def phrase_columns_def note_column_def
  decimal_def decimal_nat.simps digit_def upt_rec

lemma foldl_note_column_set: "set (foldl note_column acc xs) = set acc \<union> set xs"
  by (induction xs arbitrary: acc) (auto simp: note_column_def)

lemma foldl_note_column_distinct: "distinct acc \<Longrightarrow> distinct (foldl note_column acc xs)"
  by (induction xs arbitrary: acc) (auto simp: note_column_def)

lemma yielded_nonneg: "c \<in> set (yielded ps) \<Longrightarrow> 0 \<le> c"
  by (auto simp: yielded_def phrase_columns_def dest: set_takeWhileD)

lemma spec_output_small:
  assumes "\<forall>c\<in>set (yielded (phrases ctx)). c < int (columnCount ctx)" "columnCount ctx \<le> 10"
  shows "length (spec_output ctx) \<le> 2 * columnCount ctx"
proof -
  let ?fs = "spec_first_seen (yielded (phrases ctx))"
  have s: "set ?fs = set (yielded (phrases ctx))" and d: "distinct ?fs"
    by (simp_all add: spec_first_seen_def foldl_note_column_set foldl_note_column_distinct)
  have r: "\<forall>c\<in>set ?fs. 0 \<le> c \<and> c < int (columnCount ctx)"
    using s assms(1) yielded_nonneg by auto
  then have "\<forall>c\<in>set ?fs. 0 \<le> c \<and> c < 10" using assms(2) by auto
  then have "length (spec_output ctx) \<le> 2 * length ?fs"
    unfolding spec_output_def by (rule join_small_length)
  also have "\<dots> \<le> 2 * columnCount ctx"
    using distinct_bounded_length[OF d r] by simp
  finally show ?thesis .
qed

lemma foldl_note_column_fresh:
  "distinct xs \<Longrightarrow> set acc \<inter> set xs = {} \<Longrightarrow> foldl note_column acc xs = acc @ xs"
  by (induction xs arbitrary: acc) (auto simp: note_column_def)

lemma phrase_columns_nonneg: "\<forall>c\<in>set p. 0 \<le> c \<Longrightarrow> phrase_columns p = p"
  by (simp add: phrase_columns_def)

lemma spec_output_150:
  "spec_output \<lparr>columnCount = 150, phrases = [map int [0..<150]]\<rparr>
     = join_commas (map decimal (map int [0..<150]))"
proof -
  have "phrase_columns (map int [0..<150]) = map int [0..<150]"
    by (rule phrase_columns_nonneg) simp
  moreover have "distinct (map int [0..<150])" by (simp add: distinct_map)
  ultimately show ?thesis
    by (simp add: spec_output_def spec_first_seen_def yielded_def foldl_note_column_fresh)
qed

section \<open>The pieces of the loop body\<close>

text \<open>
  The append step either leaves the state alone (on a fault) or replaces the string by
  the result of \<open>strncat\<close>; it touches nothing else. One execution of the body is a
  fault on a null \<open>columnSet\<close>, a skip of a marked column, or a mark followed by the
  append step.
\<close>

lemma append_column_cases:
  assumes "append_column P c s1 = (fo, s')"
  shows "s' = s1 \<or>
         (\<exists>buf len buf'. matchedColumns s1 = Some buf \<and> strlen buf = Some len
            \<and> strncat buf (sqlite3_mprintf (if 0 < len then '',%d'' else ''%d'') c)
                  (size_t_sub P (size_t_sub P P len) 1) = Some buf'
            \<and> s' = s1\<lparr>matchedColumns := Some buf'\<rparr>)"
proof (cases "matchedColumns s1")
  case None
  then show ?thesis using assms by (simp add: append_column_def)
next
  case (Some buf)
  note buf = Some
  show ?thesis
  proof (cases "strlen buf")
    case None
    then show ?thesis using assms buf by (simp add: append_column_def)
  next
    case (Some len)
    note len = Some
    let ?cat = "strncat buf (sqlite3_mprintf (if 0 < len then '',%d'' else ''%d'') c)
                  (size_t_sub P (size_t_sub P P len) 1)"
    show ?thesis
    proof (cases ?cat)
      case None
      then have "append_column P c s1 = (Some BufferOverrun, s1)"
        using buf len by (simp add: append_column_def Let_def del: sqlite3_mprintf.simps)
      then show ?thesis using assms by simp
    next
      case (Some buf')
      then have "append_column P c s1 = (None, s1\<lparr>matchedColumns := Some buf'\<rparr>)"
        using buf len by (simp add: append_column_def Let_def del: sqlite3_mprintf.simps)
      then have "s' = s1\<lparr>matchedColumns := Some buf'\<rparr>" using assms by simp
      then show ?thesis using buf len Some by blast
    qed
  qed
qed

lemma append_column_keeps:
  assumes "append_column P c s1 = (fo, s')"
  shows "columnSet s' = columnSet s1" and "beyond s' = beyond s1"
    and "strayWrites s' = strayWrites s1" and "iterations s' = iterations s1"
  using append_column_cases[OF assms] by auto

lemma mark_column_keeps:
  "matchedColumns (mark_column s cs i) = matchedColumns s"
  "iterations (mark_column s cs i) = iterations s"
  by (simp_all add: mark_column_def)

lemma loop_body_cases:
  assumes "loop_body P c s = (fo, s')"
  shows "(columnSet s = None \<and> fo = Some NullDereference
            \<and> s' = s\<lparr>iterations := Suc (iterations s)\<rparr>)
       \<or> (\<exists>cs. columnSet s = Some cs \<and> is_marked s cs (nat c) \<and> fo = None
            \<and> s' = s\<lparr>iterations := Suc (iterations s)\<rparr>)
       \<or> (\<exists>cs. columnSet s = Some cs \<and> \<not> is_marked s cs (nat c)
            \<and> append_column P c
                  (mark_column (s\<lparr>iterations := Suc (iterations s)\<rparr>) cs (nat c)) = (fo, s'))"
proof (cases "columnSet s")
  case None
  then show ?thesis using assms by (auto simp: loop_body_def Let_def)
next
  case (Some cs)
  have same: "is_marked (s\<lparr>iterations := Suc (iterations s)\<rparr>) cs (nat c) = is_marked s cs (nat c)"
    by (simp add: is_marked_def)
  show ?thesis
  proof (cases "is_marked s cs (nat c)")
    case True
    then have "loop_body P c s = (None, s\<lparr>iterations := Suc (iterations s)\<rparr>)"
      using Some same by (simp add: loop_body_def Let_def)
    then show ?thesis using assms Some True by auto
  next
    case False
    then have "loop_body P c s =
        append_column P c (mark_column (s\<lparr>iterations := Suc (iterations s)\<rparr>) cs (nat c))"
      using Some same by (simp add: loop_body_def Let_def)
    then show ?thesis using assms Some False by auto
  qed
qed


section \<open>Counting the executions of the loop body\<close>

text \<open>
  The body runs at most once per value an iterator yields, whether the call ends in a
  fault or not.
\<close>

lemma loop_body_iterations: "iterations (snd (loop_body P c s)) = Suc (iterations s)"
proof -
  obtain fo s' where b: "loop_body P c s = (fo, s')" by (cases "loop_body P c s")
  from loop_body_cases[OF b] have "iterations s' = Suc (iterations s)"
    by (auto dest: append_column_keeps(4) simp: mark_column_keeps)
  then show ?thesis using b by simp
qed

lemma column_loop_iterations:
  "iterations (snd (column_loop P p s)) \<le> iterations s + length (phrase_columns p)"
proof (induction p arbitrary: s)
  case Nil
  show ?case by simp
next
  case (Cons c rest)
  show ?case
  proof (cases "0 \<le> c")
    case False
    then show ?thesis by simp
  next
    case True
    obtain fo s1 where b: "loop_body P c s = (fo, s1)" by (cases "loop_body P c s")
    have s1: "iterations s1 = Suc (iterations s)"
      using loop_body_iterations[of P c s] b by simp
    have cols: "phrase_columns (c # rest) = c # phrase_columns rest"
      using True by (simp add: phrase_columns_def)
    show ?thesis
    proof (cases fo)
      case None
      then have "column_loop P (c # rest) s = column_loop P rest s1" using True b by simp
      then show ?thesis using Cons.IH[of s1] s1 cols by simp
    next
      case (Some f)
      then have "column_loop P (c # rest) s = (Some f, s1)" using True b by simp
      then show ?thesis using s1 cols by simp
    qed
  qed
qed

lemma phrase_loop_iterations:
  "iterations (snd (phrase_loop P ps s)) \<le> iterations s + length (yielded ps)"
proof (induction ps arbitrary: s)
  case Nil
  show ?case by simp
next
  case (Cons p rest)
  obtain fo s1 where b: "column_loop P p s = (fo, s1)" by (cases "column_loop P p s")
  have s1: "iterations s1 \<le> iterations s + length (phrase_columns p)"
    using column_loop_iterations[of P p s] b by simp
  have split: "yielded (p # rest) = phrase_columns p @ yielded rest"
    by (simp add: yielded_def)
  show ?case
  proof (cases fo)
    case None
    then have "phrase_loop P (p # rest) s = phrase_loop P rest s1" using b by simp
    then show ?thesis using Cons.IH[of s1] s1 split by simp
  next
    case (Some f)
    then have "phrase_loop P (p # rest) s = (Some f, s1)" using b by simp
    then show ?thesis using s1 split by simp
  qed
qed

lemma imp_iterations:
  "snd (matched_columns_imp env ctx nVal) \<le> length (yielded (phrases ctx))"
proof (cases "nVal = 0")
  case False
  then show ?thesis by (simp add: matched_columns_imp_def)
next
  case True
  let ?s0 = "\<lparr>matchedColumns =
               sqlite3_malloc (heap_matchedColumns env) (int_of_size_t (columnCount ctx * 3)),
             columnSet = sqlite3_malloc (heap_columnSet env) (int_of_size_t (columnCount ctx)),
             beyond = (case heap_columnSet env of None \<Rightarrow> (\<lambda>_. False)
                       | Some content \<Rightarrow> content),
             strayWrites = [], iterations = 0\<rparr>"
  obtain fo s where r: "phrase_loop (sizeof_ptr env) (phrases ctx) ?s0 = (fo, s)"
    by (cases "phrase_loop (sizeof_ptr env) (phrases ctx) ?s0")
  have "iterations s \<le> length (yielded (phrases ctx))"
    using phrase_loop_iterations[of "sizeof_ptr env" "phrases ctx" ?s0] r by simp
  moreover have "snd (matched_columns_imp env ctx nVal) = iterations s"
    using True r by (cases fo) (simp_all add: matched_columns_imp_def Let_def)
  ultimately show ?thesis by simp
qed

lemma yielded_length:
  assumes "\<forall>p\<in>set ps. distinct (phrase_columns p) \<and> (\<forall>c\<in>set (phrase_columns p). c < int n)"
  shows "length (yielded ps) \<le> n * length ps"
  using assms
proof (induction ps)
  case Nil
  show ?case by (simp add: yielded_def)
next
  case (Cons p rest)
  have "\<forall>c\<in>set (phrase_columns p). 0 \<le> c"
    by (auto simp: phrase_columns_def dest: set_takeWhileD)
  then have "length (phrase_columns p) \<le> n"
    using Cons.prems by (intro distinct_bounded_length) auto
  moreover have "length (yielded rest) \<le> n * length rest"
    using Cons by simp
  ultimately show ?case by (simp add: yielded_def)
qed

section \<open>Missing blocks\<close>

text \<open>
  With a null \<open>columnSet\<close> the first execution of the body faults; without any column to
  visit the loops leave the state as it is.
\<close>

lemma loop_body_null_set:
  "columnSet s = None \<Longrightarrow>
     loop_body P c s = (Some NullDereference, s\<lparr>iterations := Suc (iterations s)\<rparr>)"
  by (simp add: loop_body_def Let_def)

lemma column_loop_no_columns: "phrase_columns p = [] \<Longrightarrow> column_loop P p s = (None, s)"
  by (cases p) (auto simp: phrase_columns_def split: if_splits)

lemma phrase_loop_no_columns: "yielded ps = [] \<Longrightarrow> phrase_loop P ps s = (None, s)"
  by (induction ps) (simp_all add: yielded_def column_loop_no_columns)

lemma column_loop_null_set:
  assumes "columnSet s = None" "phrase_columns p \<noteq> []"
  shows "column_loop P p s = (Some NullDereference, s\<lparr>iterations := Suc (iterations s)\<rparr>)"
proof (cases p)
  case Nil
  then show ?thesis using assms(2) by (simp add: phrase_columns_def)
next
  case (Cons c rest)
  then have "0 \<le> c" using assms(2) by (auto simp: phrase_columns_def split: if_splits)
  then show ?thesis using Cons loop_body_null_set[OF assms(1)] by simp
qed

lemma phrase_loop_null_set:
  assumes "columnSet s = None" "yielded ps \<noteq> []"
  shows "phrase_loop P ps s = (Some NullDereference, s\<lparr>iterations := Suc (iterations s)\<rparr>)"
  using assms(2)
proof (induction ps)
  case Nil
  then show ?case by (simp add: yielded_def)
next
  case (Cons p rest)
  show ?case
  proof (cases "phrase_columns p = []")
    case True
    then have "yielded rest \<noteq> []" using Cons.prems by (simp add: yielded_def)
    then show ?thesis using Cons.IH True by (simp add: column_loop_no_columns)
  next
    case False
    then show ?thesis using column_loop_null_set[OF assms(1) False] by simp
  qed
qed

lemma malloc_refused: "sqlite3_malloc None n = None"
  by (simp add: sqlite3_malloc_def)

lemma result_text_no_error: "sqlite3_result_text z \<noteq> Returned (ResultError msg)"
  by (simp add: sqlite3_result_text_def split: option.splits)

lemma report_no_error:
  "r \<noteq> Returned (ResultError msg) \<Longrightarrow> report ws r \<noteq> Returned (ResultError msg)"
  by (cases r) (auto simp: report_def)

lemma imp_no_error: "fst (matched_columns_imp env ctx 0) \<noteq> Returned (ResultError msg)"
proof -
  let ?s0 = "\<lparr>matchedColumns =
               sqlite3_malloc (heap_matchedColumns env) (int_of_size_t (columnCount ctx * 3)),
             columnSet = sqlite3_malloc (heap_columnSet env) (int_of_size_t (columnCount ctx)),
             beyond = (case heap_columnSet env of None \<Rightarrow> (\<lambda>_. False)
                       | Some content \<Rightarrow> content),
             strayWrites = [], iterations = 0\<rparr>"
  obtain fo s where r: "phrase_loop (sizeof_ptr env) (phrases ctx) ?s0 = (fo, s)"
    by (cases "phrase_loop (sizeof_ptr env) (phrases ctx) ?s0")
  show ?thesis
    using r report_no_error[OF result_text_no_error]
    by (cases fo) (simp_all add: matched_columns_imp_def Let_def)
qed

section \<open>What holds for any content of the fresh blocks\<close>













section \<open>The claims\<close>

subsection \<open>C1: the output is cut off by a fixed buffer\<close>

text \<open>
  C1 (as amended). The output buffer is not growable: it is one block of
  \<open>3 * columnCount\<close> bytes. When the allocator returns zeroed blocks (the first byte of
  the output block is NUL and the seen-set is all false), the column count is positive
  and every iterator value is a valid column, \<open>matched_columns_imp\<close> returns a text that
  is a prefix of the full comma-separated list of matched columns in first-seen order
  and that is shorter than \<open>3 * columnCount\<close>; it need not be the whole list.
\<close>

theorem output_is_prefix_of_full_list:
  assumes "heap_matchedColumns env = Some g" and "g 0 = NUL"
    and "heap_columnSet env = Some b" and "\<forall>i<columnCount ctx. \<not> b i"
    and "0 < columnCount ctx" and "3 * columnCount ctx < 2 ^ 31"
    and "sizeof_ptr env \<le> 8"
    and "\<forall>c\<in>set (yielded (phrases ctx)). c < int (columnCount ctx)"
  shows "\<exists>t. fst (matched_columns_imp env ctx 0) = Returned (ResultText t)
           \<and> prefix t (spec_output ctx) \<and> length t < 3 * columnCount ctx"
proof -
  let ?n = "columnCount ctx"
  let ?t = "take (sizeof_ptr env - 1) (spec_output ctx)"
  have room: "sizeof_ptr env \<le> 3 * ?n \<or> ?n \<le> 10"
    using assms(7) by linarith
  have run: "fst (matched_columns_imp env ctx 0) = Returned (ResultText ?t)"
    using zeroed_run[OF assms(1-6) room assms(8)] by simp
  have pre: "prefix ?t (spec_output ctx)" by (rule take_is_prefix)
  have short: "length ?t < 3 * ?n"
  proof (cases "sizeof_ptr env \<le> 3 * ?n")
    case True
    have "length ?t \<le> sizeof_ptr env - 1" by simp
    then show ?thesis using True assms(5) by linarith
  next
    case False
    then have "?n \<le> 10" using room by simp
    from spec_output_small[OF assms(8) this]
    have "length ?t \<le> 2 * ?n" by simp
    then show ?thesis using assms(5) by linarith
  qed
  show ?thesis using run pre short by blast
qed

text \<open>The theorem at the first scenario of the specification, three columns and the
  phrases \<open>[0, 1]\<close> and \<open>[1, 2]\<close>.\<close>

theorem output_is_prefix_of_full_list_witness:
  "\<exists>t. fst (matched_columns_imp zeroed_env \<lparr>columnCount = 3, phrases = [[0, 1], [1, 2]]\<rparr> 0)
          = Returned (ResultText t)
       \<and> prefix t (spec_output \<lparr>columnCount = 3, phrases = [[0, 1], [1, 2]]\<rparr>)
       \<and> length t < 3 * columnCount \<lparr>columnCount = 3, phrases = [[0, 1], [1, 2]]\<rparr>"
  using output_is_prefix_of_full_list
    [of zeroed_env "\<lambda>_. NUL" "\<lambda>_. False" "\<lparr>columnCount = 3, phrases = [[0, 1], [1, 2]]\<rparr>"]
  by (simp add: zeroed_env_def yielded_def phrase_columns_def)

text \<open>
  C1 as stated fails. With 150 columns and one phrase matching the columns 0 to 149, on
  zeroed memory, the text handed to the result context is \<open>0,1,2,3\<close>, whereas the full
  list has 489 characters.
\<close>

theorem full_list_150_columns_counterexample:
  "fst (matched_columns_imp zeroed_env \<lparr>columnCount = 150, phrases = [map int [0..<150]]\<rparr> 0)
     = Returned (ResultText ''0,1,2,3'')
   \<and> length (spec_output \<lparr>columnCount = 150, phrases = [map int [0..<150]]\<rparr>) = 489"
proof -
  let ?ctx = "\<lparr>columnCount = 150, phrases = [map int [0..<150]]\<rparr>"
  have cut: "take 7 (join_commas (map decimal (map int [0..<150]))) = ''0,1,2,3''"
    by (simp add: decimal_def decimal_nat.simps digit_def upt_rec)
  have whole: "length (join_commas (map decimal (map int [0..<150]))) = 489"
    by (simp add: decimal_def decimal_nat.simps digit_def upt_rec)
  have range: "\<forall>c\<in>set (yielded (phrases ?ctx)). c < int (columnCount ?ctx)"
    by (auto simp: yielded_def phrase_columns_nonneg)
  have "matched_columns_imp zeroed_env ?ctx 0 =
          (Returned (ResultText (take (sizeof_ptr zeroed_env - 1) (spec_output ?ctx))),
           length (yielded (phrases ?ctx)))"
    by (rule zeroed_run[of zeroed_env "\<lambda>_. NUL" "\<lambda>_. False"])
       (use range in \<open>simp_all add: zeroed_env_def\<close>)
  then show ?thesis
    unfolding spec_output_150 using cut whole by (simp add: zeroed_env_def)
qed

subsection \<open>C2: the seen-set is not initialised\<close>

text \<open>
  C2. The claim asks for a seen-set whose entries are all false at the start, whatever
  the allocator returns. The code uses the block of \<open>sqlite3_malloc\<close> as it is: when the
  fresh block reads true at column 0, a table with one column whose only phrase matches
  column 0 gives the empty text, although the list to return is \<open>0\<close>.
\<close>

theorem uninitialised_seen_set_drops_column:
  "matched_columns_imp (zeroed_env\<lparr>heap_columnSet := Some (\<lambda>_. True)\<rparr>)
     \<lparr>columnCount = 1, phrases = [[0]]\<rparr> 0 = (Returned (ResultText ''''), 1)
   \<and> spec_output \<lparr>columnCount = 1, phrases = [[0]]\<rparr> = ''0''"
  by (simp add: zeroed_env_def run_simps spec_simps)

subsection \<open>C3: completeness and uniqueness\<close>

text \<open>
  C3. Every yielded column is to appear exactly once in the output and none twice. With
  13 columns and one phrase matching the columns 1, 2, 3 and 12, on zeroed memory, the
  code returns \<open>1,2,3,1\<close>: column 12 is missing and the field \<open>1\<close> occurs twice.
\<close>

theorem truncation_loses_and_repeats_columns:
  "fst (matched_columns_imp zeroed_env \<lparr>columnCount = 13, phrases = [[1, 2, 3, 12]]\<rparr> 0)
     = Returned (ResultText ''1,2,3,1'')
   \<and> fields ''1,2,3,1'' = [''1'', ''2'', ''3'', ''1'']
   \<and> spec_output \<lparr>columnCount = 13, phrases = [[1, 2, 3, 12]]\<rparr> = ''1,2,3,12''"
  by (simp add: zeroed_env_def run_simps spec_simps)

subsection \<open>C4: no columns or no phrases\<close>

text \<open>
  C4. With no columns or no phrases the text is to be the empty string. With no columns
  the code asks \<open>sqlite3_malloc\<close> for zero bytes, gets a null pointer, and hands it to
  \<open>sqlite3_result_text\<close>: the result is SQL NULL, not the empty text. With no phrases
  the code hands over the fresh block as it is: when the block of a one-column table
  starts with the byte \<open>a\<close> followed by NUL, the result is the text \<open>a\<close>.
\<close>

theorem no_columns_or_no_phrases_is_not_empty_text:
  "matched_columns_imp zeroed_env \<lparr>columnCount = 0, phrases = [[]]\<rparr> 0 = (Returned ResultNull, 0)
   \<and> matched_columns_imp
         (zeroed_env\<lparr>heap_matchedColumns := Some (\<lambda>i. if i = 0 then CHR ''a'' else NUL)\<rparr>)
         \<lparr>columnCount = 1, phrases = []\<rparr> 0 = (Returned (ResultText ''a''), 0)"
  by (simp add: zeroed_env_def run_simps)

subsection \<open>C5: first-seen order\<close>

text \<open>
  C5. The output is to list the columns in first-seen order. With 20 columns, a first
  phrase matching the columns 10 and 11 and a second phrase matching column 12, on zeroed
  memory, the code returns \<open>10,11,1\<close>, whereas first-seen order gives \<open>10,11,12\<close>.
\<close>

theorem truncation_breaks_first_seen_order:
  "fst (matched_columns_imp zeroed_env \<lparr>columnCount = 20, phrases = [[10, 11], [12]]\<rparr> 0)
     = Returned (ResultText ''10,11,1'')
   \<and> spec_output \<lparr>columnCount = 20, phrases = [[10, 11], [12]]\<rparr> = ''10,11,12''"
  by (simp add: zeroed_env_def run_simps spec_simps)

subsection \<open>C6: the arity check\<close>

text \<open>
  C6. When the function is called with a nonzero argument count, the error
  \<open>Wrong number of arguments.\<close> is reported to the result context and nothing else
  happens: no text is produced and no iterator is stepped, whatever the match context
  and the allocator are.
\<close>

theorem nonzero_arity_reports_error:
  "nVal \<noteq> 0 \<Longrightarrow>
     matched_columns_imp env ctx nVal = (Returned (ResultError ''Wrong number of arguments.''), 0)"
  by (simp add: matched_columns_imp_def)

theorem nonzero_arity_reports_error_witness:
  "(1::int) \<noteq> 0 \<and>
   matched_columns_imp zeroed_env \<lparr>columnCount = 3, phrases = [[0, 1], [1, 2]]\<rparr> 1
     = (Returned (ResultError ''Wrong number of arguments.''), 0)"
  using nonzero_arity_reports_error
    [of 1 zeroed_env "\<lparr>columnCount = 3, phrases = [[0, 1], [1, 2]]\<rparr>"]
  by simp

subsection \<open>C7: a failed allocation\<close>

text \<open>
  C7 (as amended). The code never tests what \<open>sqlite3_malloc\<close> returns. When the
  allocation of the seen-set or of the output buffer fails, no error is reported to the
  result context. If the seen-set is missing and some phrase yields a column, the call
  stops at the first one with a null pointer dereference; if the output buffer is missing
  and no phrase yields a column, the call returns SQL NULL.
\<close>

theorem allocation_failure_is_not_reported:
  assumes "heap_matchedColumns env = None \<or> heap_columnSet env = None"
  shows "(\<forall>msg. fst (matched_columns_imp env ctx 0) \<noteq> Returned (ResultError msg))
       \<and> (heap_columnSet env = None \<and> yielded (phrases ctx) \<noteq> [] \<longrightarrow>
            matched_columns_imp env ctx 0 = (Crashed NullDereference, 1))
       \<and> (heap_matchedColumns env = None \<and> yielded (phrases ctx) = [] \<longrightarrow>
            matched_columns_imp env ctx 0 = (Returned ResultNull, 0))"
proof (intro conjI allI impI)
  fix msg
  show "fst (matched_columns_imp env ctx 0) \<noteq> Returned (ResultError msg)"
    by (rule imp_no_error)
next
  assume a: "heap_columnSet env = None \<and> yielded (phrases ctx) \<noteq> []"
  let ?s0 = "\<lparr>matchedColumns =
               sqlite3_malloc (heap_matchedColumns env) (int_of_size_t (columnCount ctx * 3)),
             columnSet = sqlite3_malloc (heap_columnSet env) (int_of_size_t (columnCount ctx)),
             beyond = (case heap_columnSet env of None \<Rightarrow> (\<lambda>_. False)
                       | Some content \<Rightarrow> content),
             strayWrites = [], iterations = 0\<rparr>"
  have "columnSet ?s0 = None" using a by (simp add: malloc_refused)
  from phrase_loop_null_set[OF this, of "phrases ctx" "sizeof_ptr env"] a
  show "matched_columns_imp env ctx 0 = (Crashed NullDereference, 1)"
    by (simp add: matched_columns_imp_def Let_def)
next
  assume a: "heap_matchedColumns env = None \<and> yielded (phrases ctx) = []"
  then show "matched_columns_imp env ctx 0 = (Returned ResultNull, 0)"
    by (simp add: matched_columns_imp_def Let_def phrase_loop_no_columns malloc_refused
        sqlite3_result_text_def report_def)
qed

text \<open>The theorem with both allocations refused, once with columns to visit and once
  with none.\<close>

theorem allocation_failure_is_not_reported_witness:
  "matched_columns_imp \<lparr>sizeof_ptr = 8, heap_matchedColumns = None, heap_columnSet = None\<rparr>
     \<lparr>columnCount = 3, phrases = [[0, 1], [1, 2]]\<rparr> 0 = (Crashed NullDereference, 1)
   \<and> matched_columns_imp \<lparr>sizeof_ptr = 8, heap_matchedColumns = None, heap_columnSet = None\<rparr>
     \<lparr>columnCount = 3, phrases = [[], []]\<rparr> 0 = (Returned ResultNull, 0)"
  using allocation_failure_is_not_reported
    [of "\<lparr>sizeof_ptr = 8, heap_matchedColumns = None, heap_columnSet = None\<rparr>"
        "\<lparr>columnCount = 3, phrases = [[0, 1], [1, 2]]\<rparr>"]
    allocation_failure_is_not_reported
    [of "\<lparr>sizeof_ptr = 8, heap_matchedColumns = None, heap_columnSet = None\<rparr>"
        "\<lparr>columnCount = 3, phrases = [[], []]\<rparr>"]
  by (simp add: yielded_def phrase_columns_def)

text \<open>
  C7 as stated fails: with one column, one phrase matching it, a zeroed seen-set and a
  refused output buffer, the call dereferences the null buffer in \<open>strlen\<close> instead of
  reporting an error.
\<close>

theorem failed_output_allocation_counterexample:
  "matched_columns_imp (zeroed_env\<lparr>heap_matchedColumns := None\<rparr>)
     \<lparr>columnCount = 1, phrases = [[0]]\<rparr> 0 = (Crashed NullDereference, 1)"
  by (simp add: zeroed_env_def run_simps)

subsection \<open>C8: a column index out of range\<close>




subsection \<open>C9: termination and the number of iterator steps\<close>

text \<open>
  C9. The iterators of the model are finite sequences, and the function is total: every
  call returns. When each phrase yields each column at most once, and only valid columns,
  the body of the inner loop runs at most \<open>columnCount * phraseCount\<close> times, whatever
  the allocator returns and however the call ends.
\<close>

theorem iterator_steps_bounded:
  assumes "\<forall>p\<in>set (phrases ctx). distinct (phrase_columns p)
             \<and> (\<forall>c\<in>set (phrase_columns p). c < int (columnCount ctx))"
  shows "\<exists>result steps. matched_columns_imp env ctx nVal = (result, steps)
           \<and> steps \<le> columnCount ctx * length (phrases ctx)"
proof -
  have "snd (matched_columns_imp env ctx nVal) \<le> columnCount ctx * length (phrases ctx)"
    using imp_iterations[of env ctx nVal] yielded_length[OF assms] by linarith
  then show ?thesis by (cases "matched_columns_imp env ctx nVal") simp
qed

theorem iterator_steps_bounded_witness:
  "\<exists>result steps.
     matched_columns_imp zeroed_env \<lparr>columnCount = 3, phrases = [[0, 1], [1, 2]]\<rparr> 0
       = (result, steps)
     \<and> steps \<le> columnCount \<lparr>columnCount = 3, phrases = [[0, 1], [1, 2]]\<rparr>
                 * length (phrases \<lparr>columnCount = 3, phrases = [[0, 1], [1, 2]]\<rparr>)"
  using iterator_steps_bounded
    [of "\<lparr>columnCount = 3, phrases = [[0, 1], [1, 2]]\<rparr>" zeroed_env 0]
  by (simp add: phrase_columns_def)

subsection \<open>C10: the bound taken from the size of a pointer\<close>




end
